theory Spec2Isabelle
  imports Main "HOL-Library.Sublist"
begin

section \<open>Python strings\<close>

text \<open>
  A Python \<open>str\<close> is a sequence of code points. The model uses \<open>string\<close>, so a document
  is a sequence of code points below 256 (Latin-1), and \<open>length\<close> counts code points as
  \<open>len\<close> does. The character tables below are Python's, restricted to that range.
\<close>

definition NL :: char where
  "NL = CHR 0x0A"

definition CR :: char where
  "CR = CHR 0x0D"

text \<open>\<open>str.isspace\<close> on one character; also the class \<open>\s\<close> of \<open>re\<close> on \<open>str\<close> patterns.\<close>

definition whitespace_chars :: "char list" where
  "whitespace_chars =
     [CHR 0x09, CHR 0x0A, CHR 0x0B, CHR 0x0C, CHR 0x0D, CHR 0x1C, CHR 0x1D, CHR 0x1E,
      CHR 0x1F, CHR 0x20, CHR 0x85, CHR 0xA0]"

definition isspace :: "char \<Rightarrow> bool" where
  "isspace c \<longleftrightarrow> c \<in> set whitespace_chars"

text \<open>The line boundaries of \<open>str.splitlines\<close>; \<open>\r\n\<close> counts as one boundary.\<close>

definition linebreak_chars :: "char list" where
  "linebreak_chars =
     [CHR 0x0A, CHR 0x0B, CHR 0x0C, CHR 0x0D, CHR 0x1C, CHR 0x1D, CHR 0x1E, CHR 0x85]"

definition is_linebreak :: "char \<Rightarrow> bool" where
  "is_linebreak c \<longleftrightarrow> c \<in> set linebreak_chars"

definition lstrip :: "string \<Rightarrow> string" where
  "lstrip s = dropWhile isspace s"

definition rstrip :: "string \<Rightarrow> string" where
  "rstrip s = rev (dropWhile isspace (rev s))"

definition strip :: "string \<Rightarrow> string" where
  "strip s = lstrip (rstrip s)"

text \<open>
  \<open>text.splitlines()\<close>: \<open>cur\<close> is the line read so far. A boundary closes the line, also
  an empty one; the end of the text closes it only when it is not empty.
\<close>

fun splitlines_from :: "string \<Rightarrow> string \<Rightarrow> string list" where
  "splitlines_from cur [] = (if cur = [] then [] else [cur])"
| "splitlines_from cur (c # cs) =
     (if c = CR then
        (case cs of
           [] \<Rightarrow> [cur]
         | d # ds \<Rightarrow> if d = NL then cur # splitlines_from [] ds
                    else cur # splitlines_from [] (d # ds))
      else if is_linebreak c then cur # splitlines_from [] cs
      else splitlines_from (cur @ [c]) cs)"

definition splitlines :: "string \<Rightarrow> string list" where
  "splitlines text = splitlines_from [] text"

text \<open>\<open>sep.join(xs)\<close>.\<close>

fun join :: "string \<Rightarrow> string list \<Rightarrow> string" where
  "join sep [] = []"
| "join sep [x] = x"
| "join sep (x # y # ys) = x @ sep @ join sep (y # ys)"

text \<open>\<open>str.lower\<close>: the cased code points below 256 are A-Z and U+00C0-U+00DE without U+00D7.\<close>

definition lower_char :: "char \<Rightarrow> char" where
  "lower_char c =
     (let n = (of_char c :: nat) in
      if (65 \<le> n \<and> n \<le> 90) \<or> (192 \<le> n \<and> n \<le> 214) \<or> (216 \<le> n \<and> n \<le> 222)
      then char_of (n + 32) else c)"

definition lower :: "string \<Rightarrow> string" where
  "lower s = map lower_char s"

text \<open>\<open>needle in haystack\<close> on strings.\<close>

fun startswith :: "string \<Rightarrow> string \<Rightarrow> bool" where
  "startswith s [] = True"
| "startswith [] (p # ps) = False"
| "startswith (c # cs) (p # ps) = (c = p \<and> startswith cs ps)"

fun contains :: "string \<Rightarrow> string \<Rightarrow> bool" where
  "contains [] needle = (needle = [])"
| "contains (c # cs) needle = (startswith (c # cs) needle \<or> contains cs needle)"

section \<open>Regular expressions of analyzer.py\<close>

text \<open>
  The patterns of the module are sequences of quantified one-character atoms, with \<open>$\<close> at
  the end of \<open>HEADING_RE\<close>. \<open>Lit c\<close> is a letter under \<open>(?i)\<close>, \<open>Space\<close> is \<open>\s\<close>,
  \<open>Digit\<close> is \<open>\d\<close>, \<open>Chr c\<close> an escaped character, \<open>Class cs\<close> a bracket expression.
\<close>

datatype atom = Lit char | Space | Digit | Chr char | Class "char list"

datatype quant = One | Opt | Star | Plus | AtLeast nat

datatype item = Rep atom quant | Dollar

definition digit_chars :: "char list" where
  "digit_chars = ''0123456789''"

fun atom_matches :: "atom \<Rightarrow> char \<Rightarrow> bool" where
  "atom_matches (Lit c) x = (lower_char x = lower_char c)"
| "atom_matches Space x = isspace x"
| "atom_matches Digit x = (x \<in> set digit_chars)"
| "atom_matches (Chr c) x = (x = c)"
| "atom_matches (Class cs) x = (x \<in> set cs)"

text \<open>
  \<open>re_match_here items s\<close>: the items match some prefix of \<open>s\<close>. The engine backtracks
  over every split, so it finds a match whenever one exists. \<open>Dollar\<close> without
  \<open>re.MULTILINE\<close> holds at the end of the string and before a final newline.
\<close>

fun re_match_here :: "item list \<Rightarrow> string \<Rightarrow> bool" where
  "re_match_here [] s = True"
| "re_match_here (Dollar # r) s = ((s = [] \<or> s = [NL]) \<and> re_match_here r s)"
| "re_match_here (Rep a One # r) [] = False"
| "re_match_here (Rep a One # r) (c # cs) = (atom_matches a c \<and> re_match_here r cs)"
| "re_match_here (Rep a Opt # r) [] = re_match_here r []"
| "re_match_here (Rep a Opt # r) (c # cs) =
     ((atom_matches a c \<and> re_match_here r cs) \<or> re_match_here r (c # cs))"
| "re_match_here (Rep a Star # r) [] = re_match_here r []"
| "re_match_here (Rep a Star # r) (c # cs) =
     ((atom_matches a c \<and> re_match_here (Rep a Star # r) cs) \<or> re_match_here r (c # cs))"
| "re_match_here (Rep a Plus # r) [] = False"
| "re_match_here (Rep a Plus # r) (c # cs) =
     (atom_matches a c \<and> re_match_here (Rep a Star # r) cs)"
| "re_match_here (Rep a (AtLeast 0) # r) [] = re_match_here r []"
| "re_match_here (Rep a (AtLeast 0) # r) (c # cs) =
     ((atom_matches a c \<and> re_match_here (Rep a (AtLeast 0) # r) cs) \<or> re_match_here r (c # cs))"
| "re_match_here (Rep a (AtLeast (Suc n)) # r) [] = False"
| "re_match_here (Rep a (AtLeast (Suc n)) # r) (c # cs) =
     (atom_matches a c \<and> re_match_here (Rep a (AtLeast n) # r) cs)"

text \<open>
  \<open>re.search(pattern, text, re.MULTILINE).start()\<close> for a pattern that begins with \<open>^\<close>:
  the least offset at the start of the text or right after a newline where the rest of
  the pattern matches. \<open>bol\<close> says whether offset \<open>i\<close> is such a place.
\<close>

fun re_search_from :: "item list \<Rightarrow> bool \<Rightarrow> nat \<Rightarrow> string \<Rightarrow> nat option" where
  "re_search_from p bol i [] = (if bol \<and> re_match_here p [] then Some i else None)"
| "re_search_from p bol i (c # cs) =
     (if bol \<and> re_match_here p (c # cs) then Some i
      else re_search_from p (c = NL) (Suc i) cs)"

definition re_search_multiline :: "item list \<Rightarrow> string \<Rightarrow> nat option" where
  "re_search_multiline p text = re_search_from p True 0 text"

section \<open>Section segmentation\<close>

definition heading_chars :: "char list" where
  "heading_chars = ''ABCDEFGHIJKLMNOPQRSTUVWXYZ0123456789 -&(),''"

text \<open>\<open>HEADING_RE = re.compile(r'^[A-Z0-9 \-&(),]{3,}$')\<close>, used with \<open>match\<close>.\<close>

definition HEADING_RE :: "item list" where
  "HEADING_RE = [Rep (Class heading_chars) (AtLeast 3), Dollar]"

definition HEADING_RE_match :: "string \<Rightarrow> bool" where
  "HEADING_RE_match s = re_match_here HEADING_RE s"

text \<open>
  The loop of \<open>split_into_sections\<close> over the lines, with its three variables, and the
  final append after the loop.
\<close>

fun split_loop ::
  "(string \<times> string) list \<Rightarrow> string \<Rightarrow> string list \<Rightarrow> string list \<Rightarrow> (string \<times> string) list"
where
  "split_loop sections current_heading current_lines [] =
     sections @ [(strip current_heading, strip (join [NL] current_lines))]"
| "split_loop sections current_heading current_lines (ln # lns) =
     (if strip ln = [] then split_loop sections current_heading (current_lines @ [[]]) lns
      else if HEADING_RE_match (strip ln) then
        (if current_lines \<noteq> [] \<or> sections \<noteq> [] then
           split_loop (sections @ [(strip current_heading, strip (join [NL] current_lines))])
             (strip ln) [] lns
         else split_loop sections (strip ln) [] lns)
      else split_loop sections current_heading (current_lines @ [ln]) lns)"

definition split_into_sections :: "string \<Rightarrow> (string \<times> string) list" where
  "split_into_sections text = split_loop [] ''Preamble'' [] (map rstrip (splitlines text))"

text \<open>The loop of \<open>sections_to_text\<close>, appending to \<open>out\<close>.\<close>

fun sections_loop :: "string list \<Rightarrow> (string \<times> string) list \<Rightarrow> string list" where
  "sections_loop out [] = out"
| "sections_loop out ((h, c) # rest) =
     sections_loop
       (out @ (if h \<noteq> [] \<and> h \<noteq> ''Preamble'' then [h] else []) @ (if c \<noteq> [] then [c] else []) @ [[]])
       rest"

definition sections_to_text :: "(string \<times> string) list \<Rightarrow> string" where
  "sections_to_text sections = strip (join [NL] (sections_loop [] sections))"

section \<open>Clause injection\<close>

text \<open>A run of letters under \<open>(?i)\<close>.\<close>

definition lit :: "string \<Rightarrow> item list" where
  "lit w = map (\<lambda>c. Rep (Lit c) One) w"

text \<open>\<open>\s*\d*\.?\s*\<close>, the prefix of the numbered legal headers.\<close>

definition numbered :: "item list" where
  "numbered = [Rep Space Star, Rep Digit Star, Rep (Chr CHR ''.'') Opt, Rep Space Star]"

text \<open>
  \<open>target_patterns\<close>, in the order of the source. Every pattern begins with \<open>(?i)^\<close>;
  the items are what follows it.
\<close>

definition target_patterns :: "item list list" where
  "target_patterns =
     [ [Rep Space Star] @ lit ''This'' @ [Rep Space Plus] @ lit ''is'' @ [Rep Space Plus] @ lit ''a''
         @ [Rep Space Plus] @ lit ''sample'',
       [Rep Space Star] @ lit ''USER'' @ [Rep Space Plus] @ lit ''GUIDE'',
       numbered @ lit ''TERM'' @ [Rep Space Plus] @ lit ''AND'' @ [Rep Space Plus] @ lit ''TERMINATION'',
       numbered @ lit ''WARRANTIES'',
       numbered @ lit ''LIMITATION'' @ [Rep Space Plus] @ lit ''OF'' @ [Rep Space Plus] @ lit ''LIABILITY'',
       numbered @ lit ''GENERAL'' @ [Rep Space Plus] @ lit ''PROVISIONS'',
       numbered @ lit ''INDEMNIFICATION'',
       [Rep Space Star] @ lit ''IN'' @ [Rep Space Plus] @ lit ''WITNESS'' @ [Rep Space Plus] @ lit ''WHEREOF'',
       [Rep Space Star] @ lit ''SIGNATURE'' @ [Rep (Lit CHR ''S'') Opt],
       [Rep Space Star] @ lit ''ANNEXES'',
       [Rep Space Star] @ lit ''GENERAL'' @ [Rep Space Plus] @ lit ''RECOMMENDATIONS'' ]"

text \<open>
  The search loop with its \<open>break\<close>: the first pattern of the list that matches decides.
  \<open>None\<close> is the \<open>insertion_index\<close> that stays \<open>-1\<close>; a match start is never negative.
\<close>

fun find_insertion_index :: "item list list \<Rightarrow> string \<Rightarrow> nat option" where
  "find_insertion_index [] text = None"
| "find_insertion_index (pattern # rest) text =
     (case re_search_multiline pattern text of
        Some i \<Rightarrow> Some i
      | None \<Rightarrow> find_insertion_index rest text)"

definition inject_clause_smartly :: "string \<Rightarrow> string \<Rightarrow> string" where
  "inject_clause_smartly original_text new_clause_text =
     (case find_insertion_index target_patterns original_text of
        Some insertion_index \<Rightarrow>
          rstrip (take insertion_index original_text) @ [NL, NL] @ new_clause_text @ [NL, NL]
            @ drop insertion_index original_text
      | None \<Rightarrow> original_text @ [NL, NL] @ new_clause_text)"

section \<open>Regulation matching\<close>

text \<open>
  A regulation is a dict. Its fields hold strings, and \<open>keywords\<close> a list of strings.
  Iterating over a string field gives its characters, as in Python.
\<close>

datatype field = Str string | StrList "string list"

type_synonym regulation = "string \<rightharpoonup> field"

definition get_keywords :: "regulation \<Rightarrow> string list" where
  "get_keywords reg =
     (case reg ''keywords'' of
        None \<Rightarrow> []
      | Some (StrList kws) \<Rightarrow> kws
      | Some (Str s) \<Rightarrow> map (\<lambda>c. [c]) s)"

fun match_loop :: "string list \<Rightarrow> string list \<Rightarrow> string \<Rightarrow> string list" where
  "match_loop matches [] text = matches"
| "match_loop matches (kw # kws) text =
     (if contains (lower text) (lower kw) then match_loop (matches @ [kw]) kws text
      else match_loop matches kws text)"

definition match_regulation_to_contract :: "regulation \<Rightarrow> string \<Rightarrow> int \<times> string list" where
  "match_regulation_to_contract reg text =
     (let matches = match_loop [] (get_keywords reg) text
      in (int (length matches) * 2, matches))"

section \<open>Rule-based compliance check (main.py)\<close>

text \<open>
  A clause value is a string, a dict, or something else. In a dict only \<open>str(v)\<close> of
  each value is read, so a dict is kept as its keys with those strings.
\<close>

datatype clause_value = CStr string | CDict "(string \<times> string) list" | COther

definition clause_flags :: "string \<Rightarrow> string list" where
  "clause_flags text_lower =
     (if contains text_lower ''personal data'' \<and> \<not> contains text_lower ''consent''
      then [''GDPR: Missing user consent for data processing.''] else [])
     @ (if contains text_lower ''data retention'' \<and> \<not> contains text_lower ''duration''
        then [''GDPR: Retention duration not specified.''] else [])
     @ (if contains text_lower ''transfer'' \<and> contains text_lower ''outside''
           \<and> \<not> contains text_lower ''protection''
        then [''GDPR: Cross-border data transfer missing protection clause.''] else [])
     @ (if contains text_lower ''terminate'' \<and> \<not> contains text_lower ''notice''
        then [''Indian Contract Act: Missing notice period in termination clause.''] else [])
     @ (if contains text_lower ''liability'' \<and> contains text_lower ''unlimited''
        then [''Indian Contract Act: Unlimited liability may be unenforceable.''] else [])
     @ (if contains text_lower ''dispute'' \<and> \<not> contains text_lower ''arbitration''
           \<and> \<not> contains text_lower ''court''
        then [''Indian Contract Act: Missing dispute resolution mechanism.''] else [])"

text \<open>\<open>flags[name] = clause_flags\<close> on an insertion-ordered dict.\<close>

fun dict_set :: "string \<Rightarrow> 'v \<Rightarrow> (string \<times> 'v) list \<Rightarrow> (string \<times> 'v) list" where
  "dict_set k v [] = [(k, v)]"
| "dict_set k v ((k', v') # ps) = (if k' = k then (k, v) # ps else (k', v') # dict_set k v ps)"

text \<open>
  The two \<open>isinstance\<close> tests: a dict is flattened to its values joined by spaces, and a
  value that is then not a string is skipped (\<open>None\<close>).
\<close>

fun clause_text :: "clause_value \<Rightarrow> string option" where
  "clause_text (CStr text) = Some text"
| "clause_text (CDict d) = Some (join '' '' (map snd d))"
| "clause_text COther = None"

fun check_loop ::
  "(string \<times> string list) list \<Rightarrow> (string \<times> clause_value) list \<Rightarrow> (string \<times> string list) list"
where
  "check_loop flags [] = flags"
| "check_loop flags ((name, v) # rest) =
     (case clause_text v of
        None \<Rightarrow> check_loop flags rest
      | Some text \<Rightarrow>
          (let clause_flags = clause_flags (lower text)
           in if clause_flags \<noteq> [] then check_loop (dict_set name clause_flags flags) rest
              else check_loop flags rest))"

definition check_compliance :: "(string \<times> clause_value) list \<Rightarrow> (string \<times> string list) list" where
  "check_compliance clauses = check_loop [] clauses"

section \<open>Vocabulary of the properties\<close>

definition uppercase_letters :: "char list" where
  "uppercase_letters = ''ABCDEFGHIJKLMNOPQRSTUVWXYZ''"

definition heading_punctuation :: "char list" where
  "heading_punctuation = ''-&(),''"

text \<open>The characters below 256 on which \<open>str.islower\<close> holds.\<close>

definition lowercase_letters :: "char list" where
  "lowercase_letters = ''abcdefghijklmnopqrstuvwxyz'' @
     [CHR 0xAA, CHR 0xB5, CHR 0xBA, CHR 0xDF, CHR 0xE0, CHR 0xE1, CHR 0xE2, CHR 0xE3, CHR 0xE4,
      CHR 0xE5, CHR 0xE6, CHR 0xE7, CHR 0xE8, CHR 0xE9, CHR 0xEA, CHR 0xEB, CHR 0xEC, CHR 0xED,
      CHR 0xEE, CHR 0xEF, CHR 0xF0, CHR 0xF1, CHR 0xF2, CHR 0xF3, CHR 0xF4, CHR 0xF5, CHR 0xF6,
      CHR 0xF8, CHR 0xF9, CHR 0xFA, CHR 0xFB, CHR 0xFC, CHR 0xFD, CHR 0xFE, CHR 0xFF]"

text \<open>
  A character a heading line may consist of: an uppercase letter A-Z, a digit 0-9, a
  space, or one of \<open>- & ( ) ,\<close>.
\<close>

definition heading_line_char :: "char \<Rightarrow> bool" where
  "heading_line_char c \<longleftrightarrow>
     c \<in> set uppercase_letters \<or> c \<in> set digit_chars \<or> c = CHR '' '' \<or> c \<in> set heading_punctuation"

text \<open>A keyword occurs in a text case-insensitively: as a substring, after lowering both.\<close>

definition occurs_case_insensitively :: "string \<Rightarrow> string \<Rightarrow> bool" where
  "occurs_case_insensitively kw text \<longleftrightarrow> (\<exists>before after. lower text = before @ lower kw @ after)"

text \<open>The violations of one clause value: none for a value that is skipped.\<close>

definition violations :: "clause_value \<Rightarrow> string list" where
  "violations v = (case clause_text v of None \<Rightarrow> [] | Some text \<Rightarrow> clause_flags (lower text))"

text \<open>
  An anchor pattern matches a text at an offset: the offset is at the start of the text or
  right after a newline (the \<open>^\<close> of the pattern under \<open>re.MULTILINE\<close>), and the rest of
  the pattern matches from there.
\<close>

definition matches_at :: "item list \<Rightarrow> string \<Rightarrow> nat \<Rightarrow> bool" where
  "matches_at p text ofs \<longleftrightarrow>
     ofs \<le> length text \<and> (ofs = 0 \<or> text ! (ofs - 1) = NL) \<and> re_match_here p (drop ofs text)"

text \<open>A non-empty string without whitespace at either end.\<close>

definition trimmed_nonempty :: "string \<Rightarrow> bool" where
  "trimmed_nonempty h \<longleftrightarrow> h \<noteq> [] \<and> \<not> isspace (hd h) \<and> \<not> isspace (last h)"

section \<open>Stripping\<close>

lemma hd_lstrip: "lstrip s \<noteq> [] \<Longrightarrow> \<not> isspace (hd (lstrip s))"
  unfolding lstrip_def by (rule hd_dropWhile)

lemma last_rstrip: "rstrip s \<noteq> [] \<Longrightarrow> \<not> isspace (last (rstrip s))"
  unfolding rstrip_def by (simp add: last_rev hd_dropWhile)

lemma last_dropWhile_keep: "dropWhile P xs \<noteq> [] \<Longrightarrow> last (dropWhile P xs) = last xs"
  by (induction xs) (auto split: if_splits)

lemma strip_nonempty_rstrip: "strip s \<noteq> [] \<Longrightarrow> rstrip s \<noteq> []"
  unfolding strip_def lstrip_def by auto

lemma hd_strip: "strip s \<noteq> [] \<Longrightarrow> \<not> isspace (hd (strip s))"
  unfolding strip_def by (rule hd_lstrip)

lemma last_strip: "strip s \<noteq> [] \<Longrightarrow> \<not> isspace (last (strip s))"
proof -
  assume ne: "strip s \<noteq> []"
  then have "last (strip s) = last (rstrip s)"
    unfolding strip_def lstrip_def by (rule last_dropWhile_keep)
  with last_rstrip [OF strip_nonempty_rstrip [OF ne]] show ?thesis by simp
qed

lemma isspace_NL: "isspace NL"
  by (simp add: isspace_def whitespace_chars_def NL_def)

section \<open>The heading classifier\<close>

lemma class_at_least_zero:
  "re_match_here [Rep (Class cs) (AtLeast 0), Dollar] s \<longleftrightarrow>
     (\<exists>k\<le>length s. (\<forall>c\<in>set (take k s). c \<in> set cs) \<and> (drop k s = [] \<or> drop k s = [NL]))"
proof (induction s)
  case Nil
  show ?case by simp
next
  case (Cons c s)
  show ?case
  proof
    assume "re_match_here [Rep (Class cs) (AtLeast 0), Dollar] (c # s)"
    then consider (step) "c \<in> set cs" "re_match_here [Rep (Class cs) (AtLeast 0), Dollar] s"
      | (stop) "c # s = [NL]" by auto
    then show "\<exists>k\<le>length (c # s). (\<forall>x\<in>set (take k (c # s)). x \<in> set cs) \<and>
        (drop k (c # s) = [] \<or> drop k (c # s) = [NL])"
    proof cases
      case step
      with Cons.IH obtain k where "k \<le> length s" "\<forall>x\<in>set (take k s). x \<in> set cs"
        "drop k s = [] \<or> drop k s = [NL]" by blast
      with step(1) show ?thesis by (intro exI [of _ "Suc k"]) simp
    next
      case stop
      then show ?thesis by (intro exI [of _ 0]) simp
    qed
  next
    assume "\<exists>k\<le>length (c # s). (\<forall>x\<in>set (take k (c # s)). x \<in> set cs) \<and>
        (drop k (c # s) = [] \<or> drop k (c # s) = [NL])"
    then obtain k where k: "k \<le> length (c # s)" "\<forall>x\<in>set (take k (c # s)). x \<in> set cs"
      "drop k (c # s) = [] \<or> drop k (c # s) = [NL]" by blast
    show "re_match_here [Rep (Class cs) (AtLeast 0), Dollar] (c # s)"
    proof (cases k)
      case 0
      with k(3) show ?thesis by simp
    next
      case (Suc j)
      with k have "j \<le> length s" "\<forall>x\<in>set (take j s). x \<in> set cs"
        "drop j s = [] \<or> drop j s = [NL]" "c \<in> set cs" by simp_all
      with Cons.IH show ?thesis by auto
    qed
  qed
qed

lemma class_at_least:
  "re_match_here [Rep (Class cs) (AtLeast n), Dollar] s \<longleftrightarrow>
     (\<exists>k\<le>length s. n \<le> k \<and> (\<forall>c\<in>set (take k s). c \<in> set cs) \<and> (drop k s = [] \<or> drop k s = [NL]))"
proof (induction n arbitrary: s)
  case 0
  show ?case by (simp add: class_at_least_zero)
next
  case (Suc n)
  show ?case
  proof (cases s)
    case Nil
    then show ?thesis by simp
  next
    case (Cons c s')
    show ?thesis
    proof
      assume "re_match_here [Rep (Class cs) (AtLeast (Suc n)), Dollar] s"
      with Cons have "c \<in> set cs" "re_match_here [Rep (Class cs) (AtLeast n), Dollar] s'" by simp_all
      with Suc.IH obtain k where "k \<le> length s'" "n \<le> k" "\<forall>x\<in>set (take k s'). x \<in> set cs"
        "drop k s' = [] \<or> drop k s' = [NL]" by blast
      with \<open>c \<in> set cs\<close> Cons show "\<exists>k\<le>length s. Suc n \<le> k \<and> (\<forall>c\<in>set (take k s). c \<in> set cs) \<and>
          (drop k s = [] \<or> drop k s = [NL])"
        by (intro exI [of _ "Suc k"]) simp
    next
      assume "\<exists>k\<le>length s. Suc n \<le> k \<and> (\<forall>c\<in>set (take k s). c \<in> set cs) \<and>
          (drop k s = [] \<or> drop k s = [NL])"
      then obtain k where k: "k \<le> length s" "Suc n \<le> k" "\<forall>x\<in>set (take k s). x \<in> set cs"
        "drop k s = [] \<or> drop k s = [NL]" by blast
      then obtain j where j: "k = Suc j" by (cases k) simp_all
      with k Cons have "j \<le> length s'" "n \<le> j" "\<forall>x\<in>set (take j s'). x \<in> set cs"
        "drop j s' = [] \<or> drop j s' = [NL]" "c \<in> set cs" by simp_all
      with Suc.IH Cons show "re_match_here [Rep (Class cs) (AtLeast (Suc n)), Dollar] s" by auto
    qed
  qed
qed

lemma heading_chars_iff: "c \<in> set heading_chars \<longleftrightarrow> heading_line_char c"
  unfolding heading_chars_def heading_line_char_def uppercase_letters_def digit_chars_def
    heading_punctuation_def
  by auto

lemma heading_char_not_lower: "heading_line_char c \<Longrightarrow> c \<notin> set lowercase_letters"
  unfolding heading_line_char_def uppercase_letters_def digit_chars_def
    heading_punctuation_def lowercase_letters_def
  by auto

lemma heading_match_trimmed:
  assumes "strip ln = ln"
  shows "HEADING_RE_match ln \<longleftrightarrow> (\<forall>c\<in>set ln. c \<in> set heading_chars) \<and> 3 \<le> length ln"
proof
  assume "HEADING_RE_match ln"
  then obtain k where k: "k \<le> length ln" "3 \<le> k" "\<forall>c\<in>set (take k ln). c \<in> set heading_chars"
    "drop k ln = [] \<or> drop k ln = [NL]"
    unfolding HEADING_RE_match_def HEADING_RE_def class_at_least by blast
  have "drop k ln \<noteq> [NL]"
  proof
    assume d: "drop k ln = [NL]"
    then have "ln \<noteq> []" by auto
    have "last ln = last (drop k ln)" using d by (metis last_drop drop_eq_Nil not_Cons_self2 not_le)
    with d have "isspace (last ln)" by (simp add: isspace_NL)
    moreover have "\<not> isspace (last ln)" using last_strip [of ln] assms \<open>ln \<noteq> []\<close> by simp
    ultimately show False by simp
  qed
  with k(4) have "drop k ln = []" by simp
  with k(1) have "take k ln = ln" by simp
  with k show "(\<forall>c\<in>set ln. c \<in> set heading_chars) \<and> 3 \<le> length ln" by simp
next
  assume "(\<forall>c\<in>set ln. c \<in> set heading_chars) \<and> 3 \<le> length ln"
  then show "HEADING_RE_match ln"
    unfolding HEADING_RE_match_def HEADING_RE_def class_at_least
    by (intro exI [of _ "length ln"]) simp
qed

text \<open>
  C4. On a line already trimmed of leading and trailing whitespace, the heading
  classifier answers true exactly when every character of the line is an uppercase
  letter A-Z, a digit, a space or one of \<open>- & ( ) ,\<close> and the line has at least 3
  characters. The empty line is not a heading, and neither is a line that contains a
  lowercase letter.
\<close>

theorem heading_classifier_contract:
  assumes "strip ln = ln"
  shows "(HEADING_RE_match ln \<longleftrightarrow> (\<forall>c\<in>set ln. heading_line_char c) \<and> 3 \<le> length ln)
    \<and> \<not> HEADING_RE_match []
    \<and> ((\<exists>c\<in>set ln. c \<in> set lowercase_letters) \<longrightarrow> \<not> HEADING_RE_match ln)"
proof -
  have main: "HEADING_RE_match ln \<longleftrightarrow> (\<forall>c\<in>set ln. heading_line_char c) \<and> 3 \<le> length ln"
    using heading_match_trimmed [OF assms] by (simp add: heading_chars_iff)
  have empty: "\<not> HEADING_RE_match []"
    by (simp add: HEADING_RE_match_def HEADING_RE_def class_at_least)
  have "\<not> HEADING_RE_match ln" if "\<exists>c\<in>set ln. c \<in> set lowercase_letters"
    using that main heading_char_not_lower by blast
  with main empty show ?thesis by blast
qed

theorem heading_classifier_contract_witness:
  "strip ''TERM AND TERMINATION'' = ''TERM AND TERMINATION''
   \<and> HEADING_RE_match ''TERM AND TERMINATION''
   \<and> list_all heading_line_char ''TERM AND TERMINATION''
   \<and> strip ''Term'' = ''Term''
   \<and> \<not> HEADING_RE_match ''Term''"
proof -
  have h: "strip ''TERM AND TERMINATION'' = ''TERM AND TERMINATION''" by code_simp
  have m: "HEADING_RE_match ''TERM AND TERMINATION''" by code_simp
  have h': "strip ''Term'' = ''Term''" by code_simp
  have l: "\<exists>c\<in>set ''Term''. c \<in> set lowercase_letters"
    by (simp add: lowercase_letters_def)
  from heading_classifier_contract [OF h] m
  have "list_all heading_line_char ''TERM AND TERMINATION''"
    unfolding list_all_iff by blast
  moreover from heading_classifier_contract [OF h'] l have "\<not> HEADING_RE_match ''Term''"
    by blast
  ultimately show ?thesis using h m h' by blast
qed

section \<open>Segmentation\<close>

lemma split_loop_nonempty: "split_loop sections h ls lns \<noteq> []"
  by (induction lns arbitrary: sections h ls) simp_all

text \<open>
  C1 (as the code behaves). For the document \<open>PREAMBLE TEXT\<close>, \<open>TERM AND TERMINATION\<close>,
  \<open>This agreement terminates with 30 days notice.\<close> on three lines, the segmenter
  returns one section: the heading \<open>TERM AND TERMINATION\<close> with the third line as its
  body. The first line is itself a heading and is dropped with its empty body.
\<close>

theorem split_scenario_one_section:
  "split_into_sections
     (''PREAMBLE TEXT'' @ [NL] @ ''TERM AND TERMINATION'' @ [NL]
        @ ''This agreement terminates with 30 days notice.'')
   = [(''TERM AND TERMINATION'', ''This agreement terminates with 30 days notice.'')]"
  by code_simp

text \<open>C1 as stated fails: the result is not the two sections of the scenario.\<close>

theorem split_scenario_counterexample:
  "split_into_sections
     (''PREAMBLE TEXT'' @ [NL] @ ''TERM AND TERMINATION'' @ [NL]
        @ ''This agreement terminates with 30 days notice.'')
   \<noteq> [(''Preamble'', ''PREAMBLE TEXT''),
       (''TERM AND TERMINATION'', ''This agreement terminates with 30 days notice.'')]"
  by code_simp

text \<open>
  C8. \<open>split_into_sections\<close> is a total function that returns at least one section for
  every text, and for the empty text exactly the section \<open>(Preamble, empty body)\<close>.
\<close>

theorem split_into_sections_total:
  "split_into_sections text \<noteq> [] \<and> split_into_sections [] = [(''Preamble'', [])]"
proof
  show "split_into_sections text \<noteq> []"
    unfolding split_into_sections_def by (rule split_loop_nonempty)
  show "split_into_sections [] = [(''Preamble'', [])]" by code_simp
qed

section \<open>Injection\<close>

text \<open>
  C2 (as the code behaves). For \<open>A\<close>, a blank line, \<open>TERM AND TERMINATION\<close>, \<open>B\<close> and the
  clause \<open>NEW CLAUSE\<close>, the anchor matches from offset 2, the newline of the blank line,
  so the output has three newlines between the clause and the anchor line.
\<close>

theorem inject_exactness_three_newlines:
  "inject_clause_smartly (''A'' @ [NL, NL] @ ''TERM AND TERMINATION'' @ [NL] @ ''B'') ''NEW CLAUSE''
   = ''A'' @ [NL, NL] @ ''NEW CLAUSE'' @ [NL, NL, NL] @ ''TERM AND TERMINATION'' @ [NL] @ ''B''"
  by code_simp

text \<open>C2 as stated fails: the output is not the string with two newlines there.\<close>

theorem inject_exactness_counterexample:
  "inject_clause_smartly (''A'' @ [NL, NL] @ ''TERM AND TERMINATION'' @ [NL] @ ''B'') ''NEW CLAUSE''
   \<noteq> ''A'' @ [NL, NL] @ ''NEW CLAUSE'' @ [NL, NL] @ ''TERM AND TERMINATION'' @ [NL] @ ''B''"
  by code_simp

section \<open>Regulation matching\<close>

lemma startswith_prefix: "startswith s p \<longleftrightarrow> prefix p s"
  by (induction s p rule: startswith.induct) auto

lemma contains_sublist: "contains hay needle \<longleftrightarrow> sublist needle hay"
  by (induction hay) (simp_all add: sublist_Cons_right startswith_prefix)

lemma contains_occurs: "contains (lower text) (lower kw) \<longleftrightarrow> occurs_case_insensitively kw text"
  by (simp add: contains_sublist sublist_def occurs_case_insensitively_def)

lemma match_loop_filter:
  "match_loop matches kws text = matches @ filter (\<lambda>kw. occurs_case_insensitively kw text) kws"
  by (induction kws arbitrary: matches) (simp_all add: contains_occurs)

text \<open>
  C6. For a regulation whose \<open>keywords\<close> field is the list \<open>kws\<close>, the result is twice
  the number of keywords that occur case-insensitively as substrings of the text, with
  the list of those keywords in the order of \<open>kws\<close>. A regulation without a \<open>keywords\<close>
  field gives score 0 and the empty list.
\<close>

theorem match_regulation_score:
  "(reg ''keywords'' = Some (StrList kws) \<longrightarrow>
      match_regulation_to_contract reg text =
        (2 * int (length (filter (\<lambda>kw. occurs_case_insensitively kw text) kws)),
         filter (\<lambda>kw. occurs_case_insensitively kw text) kws))
   \<and> (reg ''keywords'' = None \<longrightarrow> match_regulation_to_contract reg text = (0, []))"
  by (simp add: match_regulation_to_contract_def get_keywords_def match_loop_filter Let_def)

theorem match_regulation_score_witness:
  "match_regulation_to_contract
     [''title'' \<mapsto> Str ''Rule'', ''keywords'' \<mapsto> StrList [''Privacy'', ''audit'', ''personal data'']]
     ''Your PERSONAL DATA and privacy''
   = (4, [''Privacy'', ''personal data''])
   \<and> match_regulation_to_contract [''title'' \<mapsto> Str ''Rule''] ''Your PERSONAL DATA and privacy''
     = (0, [])"
proof -
  have k: "[''title'' \<mapsto> Str ''Rule'', ''keywords'' \<mapsto> StrList [''Privacy'', ''audit'', ''personal data'']]
      ''keywords'' = Some (StrList [''Privacy'', ''audit'', ''personal data''])"
    by simp
  have k0: "[''title'' \<mapsto> Str ''Rule''] ''keywords'' = None" by simp
  have "filter (\<lambda>kw. contains (lower ''Your PERSONAL DATA and privacy'') (lower kw))
      [''Privacy'', ''audit'', ''personal data''] = [''Privacy'', ''personal data'']"
    by code_simp
  then have f: "filter (\<lambda>kw. occurs_case_insensitively kw ''Your PERSONAL DATA and privacy'')
      [''Privacy'', ''audit'', ''personal data''] = [''Privacy'', ''personal data'']"
    by (simp only: contains_occurs)
  from match_regulation_score
    [of "[''title'' \<mapsto> Str ''Rule'', ''keywords'' \<mapsto> StrList [''Privacy'', ''audit'', ''personal data'']]"
      "[''Privacy'', ''audit'', ''personal data'']" "''Your PERSONAL DATA and privacy''"] k f
  have 1: "match_regulation_to_contract
     [''title'' \<mapsto> Str ''Rule'', ''keywords'' \<mapsto> StrList [''Privacy'', ''audit'', ''personal data'']]
     ''Your PERSONAL DATA and privacy'' = (4, [''Privacy'', ''personal data''])"
    by simp
  from match_regulation_score [of "[''title'' \<mapsto> Str ''Rule'']" "[]" "''Your PERSONAL DATA and privacy''"] k0
  have 2: "match_regulation_to_contract [''title'' \<mapsto> Str ''Rule''] ''Your PERSONAL DATA and privacy''
     = (0, [])"
    by simp
  from 1 2 show ?thesis by (rule conjI)
qed

section \<open>Compliance flags\<close>

lemma map_of_dict_set: "map_of (dict_set k v ps) = (map_of ps)(k \<mapsto> v)"
  by (induction ps) (auto simp: fun_eq_iff)

lemma check_loop_map_of:
  "distinct (map fst clauses) \<Longrightarrow>
   map_of (check_loop flags clauses) name =
     (case map_of clauses name of
        None \<Rightarrow> map_of flags name
      | Some v \<Rightarrow> if violations v = [] then map_of flags name else Some (violations v))"
proof (induction clauses arbitrary: flags)
  case Nil
  show ?case by simp
next
  case (Cons p clauses)
  obtain n v where p: "p = (n, v)" by (cases p)
  from Cons.prems p have d: "distinct (map fst clauses)" and n: "n \<notin> fst ` set clauses" by simp_all
  from n have mn: "map_of clauses n = None" by (simp add: map_of_eq_None_iff)
  show ?case
  proof (cases "name = n")
    case True
    with mn p have "map_of clauses name = None" "p = (name, v)" by simp_all
    then show ?thesis
      by (simp add: Cons.IH [OF d] violations_def map_of_dict_set Let_def split: option.splits)
  next
    case False
    with p show ?thesis
      by (simp add: Cons.IH [OF d] violations_def map_of_dict_set Let_def split: option.splits)
  qed
qed

lemma consent_clause_flags: "clause_flags (lower ''We collect personal data for marketing purposes.'')
  = [''GDPR: Missing user consent for data processing.'']"
  by code_simp

lemma liability_clause_flags: "clause_flags (lower ''The provider's liability is unlimited in all cases.'')
  = [''Indian Contract Act: Unlimited liability may be unenforceable.'']"
  by code_simp

text \<open>
  C9 (as the code behaves). The clause \<open>We collect personal data for marketing purposes.\<close>
  yields exactly one flag, \<open>GDPR: Missing user consent for data processing.\<close>; the clause
  \<open>The provider's liability is unlimited in all cases.\<close> yields exactly one flag,
  \<open>Indian Contract Act: Unlimited liability may be unenforceable.\<close> In the output mapping
  a clause name is present exactly when its clause has at least one violation, and is then
  bound to those violations: a clause with zero violations is omitted.
\<close>

theorem compliance_flags:
  "check_compliance [(name, CStr ''We collect personal data for marketing purposes.'')]
     = [(name, [''GDPR: Missing user consent for data processing.''])]
   \<and> check_compliance [(name, CStr ''The provider's liability is unlimited in all cases.'')]
     = [(name, [''Indian Contract Act: Unlimited liability may be unenforceable.''])]
   \<and> (distinct (map fst clauses) \<longrightarrow>
        map_of (check_compliance clauses) name =
          (case map_of clauses name of
             None \<Rightarrow> None
           | Some v \<Rightarrow> if violations v = [] then None else Some (violations v)))"
proof -
  have 1: "check_compliance [(name, CStr ''We collect personal data for marketing purposes.'')]
     = [(name, [''GDPR: Missing user consent for data processing.''])]"
    by (simp add: check_compliance_def consent_clause_flags)
  have 2: "check_compliance [(name, CStr ''The provider's liability is unlimited in all cases.'')]
     = [(name, [''Indian Contract Act: Unlimited liability may be unenforceable.''])]"
    by (simp add: check_compliance_def liability_clause_flags)
  have 3: "map_of (check_compliance clauses) name =
          (case map_of clauses name of
             None \<Rightarrow> None
           | Some v \<Rightarrow> if violations v = [] then None else Some (violations v))"
    if "distinct (map fst clauses)"
    using check_loop_map_of [OF that, of "[]" name]
    by (simp add: check_compliance_def split: option.splits)
  from 1 2 3 show ?thesis by blast
qed

theorem compliance_flags_witness:
  "distinct (map fst
      [(''privacy'', CStr ''We collect personal data for marketing purposes.''),
       (''payment'', CStr ''Fees are due within 30 days.''),
       (''liability'', CStr ''The provider's liability is unlimited in all cases.'')])
   \<and> map_of (check_compliance
      [(''privacy'', CStr ''We collect personal data for marketing purposes.''),
       (''payment'', CStr ''Fees are due within 30 days.''),
       (''liability'', CStr ''The provider's liability is unlimited in all cases.'')]) ''payment'' = None
   \<and> check_compliance [(''privacy'', CStr ''We collect personal data for marketing purposes.'')]
     = [(''privacy'', [''GDPR: Missing user consent for data processing.''])]"
proof -
  have d: "distinct (map fst
      [(''privacy'', CStr ''We collect personal data for marketing purposes.''),
       (''payment'', CStr ''Fees are due within 30 days.''),
       (''liability'', CStr ''The provider's liability is unlimited in all cases.'')])"
    by simp
  have v: "violations (CStr ''Fees are due within 30 days.'') = []" by code_simp
  have m: "map_of
      [(''privacy'', CStr ''We collect personal data for marketing purposes.''),
       (''payment'', CStr ''Fees are due within 30 days.''),
       (''liability'', CStr ''The provider's liability is unlimited in all cases.'')] ''payment''
      = Some (CStr ''Fees are due within 30 days.'')"
    by simp
  from compliance_flags [of "''payment''"
      "[(''privacy'', CStr ''We collect personal data for marketing purposes.''),
        (''payment'', CStr ''Fees are due within 30 days.''),
        (''liability'', CStr ''The provider's liability is unlimited in all cases.'')]"]
    d v m
  have "map_of (check_compliance
      [(''privacy'', CStr ''We collect personal data for marketing purposes.''),
       (''payment'', CStr ''Fees are due within 30 days.''),
       (''liability'', CStr ''The provider's liability is unlimited in all cases.'')]) ''payment'' = None"
    by simp
  with d compliance_flags [of "''privacy''" "[]"] show ?thesis by simp
qed

text \<open>
  C9 as stated fails on the text of the flag: the one flag of the first clause is the
  string above, not \<open>missing consent for data processing.\<close>
\<close>

theorem compliance_flags_counterexample:
  "check_compliance [(''privacy'', CStr ''We collect personal data for marketing purposes.'')]
     = [(''privacy'', [''GDPR: Missing user consent for data processing.''])]
   \<and> check_compliance [(''privacy'', CStr ''We collect personal data for marketing purposes.'')]
     \<noteq> [(''privacy'', [''missing consent for data processing.''])]"
  by code_simp

section \<open>The anchor search\<close>

lemma matches_at_boundary:
  "matches_at p (pre @ s) (length pre) \<longleftrightarrow> (pre = [] \<or> last pre = NL) \<and> re_match_here p s"
  by (cases "pre = []") (simp_all add: matches_at_def nth_append last_conv_nth)

lemma matches_at_bound: "matches_at p text ofs \<Longrightarrow> ofs \<le> length text"
  by (simp add: matches_at_def)

lemma search_from_some:
  "re_search_from p (pre = [] \<or> last pre = NL) (length pre) s = Some i \<longleftrightarrow>
     length pre \<le> i \<and> matches_at p (pre @ s) i
     \<and> (\<forall>ofs. length pre \<le> ofs \<and> ofs < i \<longrightarrow> \<not> matches_at p (pre @ s) ofs)"
proof (induction s arbitrary: pre)
  case Nil
  show ?case
  proof (cases "(pre = [] \<or> last pre = NL) \<and> re_match_here p []")
    case True
    then have m: "matches_at p (pre @ []) (length pre)"
      using matches_at_boundary [of p pre "[]"] by simp
    have "i = length pre" if "length pre \<le> i" "matches_at p pre i" for i
      using that matches_at_bound [of p pre i] by simp
    with m True show ?thesis by auto
  next
    case False
    then have m: "\<not> matches_at p (pre @ []) (length pre)"
      using matches_at_boundary [of p pre "[]"] by simp
    have "i = length pre" if "length pre \<le> i" "matches_at p pre i" for i
      using that matches_at_bound [of p pre i] by simp
    with m False show ?thesis by auto
  qed
next
  case (Cons c cs)
  have b: "(pre @ [c] = [] \<or> last (pre @ [c]) = NL) \<longleftrightarrow> c = NL" by simp
  note IH = Cons.IH [of "pre @ [c]", unfolded b, simplified]
  show ?case
  proof (cases "(pre = [] \<or> last pre = NL) \<and> re_match_here p (c # cs)")
    case True
    then have m: "matches_at p (pre @ c # cs) (length pre)" by (simp only: matches_at_boundary)
    from True have "re_search_from p (pre = [] \<or> last pre = NL) (length pre) (c # cs) = Some (length pre)"
      by simp
    moreover have "i = length pre" if "length pre \<le> i" "matches_at p (pre @ c # cs) i"
        "\<forall>ofs. length pre \<le> ofs \<and> ofs < i \<longrightarrow> \<not> matches_at p (pre @ c # cs) ofs"
      using that m by (metis le_neq_implies_less order_refl)
    ultimately show ?thesis using m by auto
  next
    case False
    then have m: "\<not> matches_at p (pre @ c # cs) (length pre)" by (simp add: matches_at_boundary)
    from False have "re_search_from p (pre = [] \<or> last pre = NL) (length pre) (c # cs)
        = re_search_from p (c = NL) (Suc (length pre)) cs" by auto
    also have "\<dots> = Some i \<longleftrightarrow> Suc (length pre) \<le> i \<and> matches_at p (pre @ c # cs) i \<and>
        (\<forall>ofs. Suc (length pre) \<le> ofs \<and> ofs < i \<longrightarrow> \<not> matches_at p (pre @ c # cs) ofs)"
      using IH by simp
    also have "\<dots> \<longleftrightarrow> length pre \<le> i \<and> matches_at p (pre @ c # cs) i \<and>
        (\<forall>ofs. length pre \<le> ofs \<and> ofs < i \<longrightarrow> \<not> matches_at p (pre @ c # cs) ofs)"
      using m by (metis Suc_leI le_neq_implies_less Suc_le_lessD less_imp_le_nat)
    finally show ?thesis .
  qed
qed

lemma search_multiline_some:
  "re_search_multiline p text = Some i \<longleftrightarrow>
     matches_at p text i \<and> (\<forall>ofs<i. \<not> matches_at p text ofs)"
  using search_from_some [of p "[]" "text" i] by (simp add: re_search_multiline_def)

lemma search_multiline_none:
  "re_search_multiline p text = None \<longleftrightarrow> (\<forall>ofs. \<not> matches_at p text ofs)"
proof
  assume n: "re_search_multiline p text = None"
  show "\<forall>ofs. \<not> matches_at p text ofs"
  proof (rule ccontr)
    assume "\<not> (\<forall>ofs. \<not> matches_at p text ofs)"
    then have ex: "\<exists>ofs. matches_at p text ofs" by simp
    define i where "i = (LEAST ofs. matches_at p text ofs)"
    from ex have "matches_at p text i" unfolding i_def by (metis LeastI)
    moreover have "\<forall>ofs<i. \<not> matches_at p text ofs" unfolding i_def using not_less_Least by blast
    ultimately have "re_search_multiline p text = Some i" by (simp add: search_multiline_some)
    with n show False by simp
  qed
next
  assume "\<forall>ofs. \<not> matches_at p text ofs"
  then show "re_search_multiline p text = None"
    by (cases "re_search_multiline p text") (auto simp: search_multiline_some)
qed

lemma find_insertion_index_some:
  "find_insertion_index ps text = Some i \<longleftrightarrow>
     (\<exists>k<length ps. (\<forall>j<k. re_search_multiline (ps ! j) text = None)
        \<and> re_search_multiline (ps ! k) text = Some i)"
proof (induction ps)
  case Nil
  show ?case by simp
next
  case (Cons p ps)
  show ?case
  proof (cases "re_search_multiline p text")
    case None
    have "(\<exists>k<length (p # ps). (\<forall>j<k. re_search_multiline ((p # ps) ! j) text = None)
        \<and> re_search_multiline ((p # ps) ! k) text = Some i)
      \<longleftrightarrow> (\<exists>k<length ps. (\<forall>j<k. re_search_multiline (ps ! j) text = None)
        \<and> re_search_multiline (ps ! k) text = Some i)" (is "?L \<longleftrightarrow> ?R")
    proof
      assume ?L
      then obtain k where k: "k < length (p # ps)" "\<forall>j<k. re_search_multiline ((p # ps) ! j) text = None"
        "re_search_multiline ((p # ps) ! k) text = Some i" by blast
      with None obtain k' where k': "k = Suc k'" by (cases k) auto
      with k have "k' < length ps" "re_search_multiline (ps ! k') text = Some i" by simp_all
      moreover have "\<forall>j<k'. re_search_multiline (ps ! j) text = None"
      proof (intro allI impI)
        fix j assume "j < k'"
        with k' have "Suc j < k" by simp
        with k(2) have "re_search_multiline ((p # ps) ! Suc j) text = None" by blast
        then show "re_search_multiline (ps ! j) text = None" by simp
      qed
      ultimately show ?R by blast
    next
      assume ?R
      then obtain k where k: "k < length ps" "\<forall>j<k. re_search_multiline (ps ! j) text = None"
        "re_search_multiline (ps ! k) text = Some i" by blast
      have "\<forall>j<Suc k. re_search_multiline ((p # ps) ! j) text = None"
      proof (intro allI impI)
        fix j assume "j < Suc k"
        then show "re_search_multiline ((p # ps) ! j) text = None"
          using None k(2) by (cases j) simp_all
      qed
      with k show ?L by (intro exI [of _ "Suc k"]) simp
    qed
    with None Cons.IH show ?thesis by simp
  next
    case (Some i')
    have "(\<exists>k<length (p # ps). (\<forall>j<k. re_search_multiline ((p # ps) ! j) text = None)
        \<and> re_search_multiline ((p # ps) ! k) text = Some i) \<longleftrightarrow> i' = i" (is "?L \<longleftrightarrow> _")
    proof
      assume ?L
      then obtain k where k: "k < length (p # ps)" "\<forall>j<k. re_search_multiline ((p # ps) ! j) text = None"
        "re_search_multiline ((p # ps) ! k) text = Some i" by blast
      have "k = 0"
      proof (rule ccontr)
        assume "k \<noteq> 0"
        with k(2) have "re_search_multiline ((p # ps) ! 0) text = None" by blast
        with Some show False by simp
      qed
      with k(3) Some show "i' = i" by simp
    next
      assume "i' = i"
      with Some show ?L by (intro exI [of _ 0]) simp
    qed
    with Some show ?thesis by simp
  qed
qed

lemma rstrip_split: "\<exists>trimmed. list_all isspace trimmed \<and> s = rstrip s @ trimmed"
proof (intro exI conjI)
  show "list_all isspace (rev (takeWhile isspace (rev s)))"
    by (simp add: list_all_iff) (metis set_takeWhileD)
  have "rev (dropWhile isspace (rev s)) @ rev (takeWhile isspace (rev s))
      = rev (takeWhile isspace (rev s) @ dropWhile isspace (rev s))" by (simp only: rev_append)
  also have "\<dots> = rev (rev s)" by (simp only: takeWhile_dropWhile_id)
  finally show "s = rstrip s @ rev (takeWhile isspace (rev s))" by (simp add: rstrip_def)
qed

section \<open>Properties of the injection\<close>

lemma length_target_patterns: "length target_patterns = 11"
  by (simp add: target_patterns_def)

lemma inject_at:
  "find_insertion_index target_patterns text = Some i \<Longrightarrow>
     inject_clause_smartly text clause = rstrip (take i text) @ [NL, NL] @ clause @ [NL, NL] @ drop i text"
  by (simp add: inject_clause_smartly_def)

text \<open>
  C5 (as the code behaves). The anchor search is strict priority: the insertion offset is
  \<open>i\<close> exactly when, for the earliest pattern of the list that matches anywhere in the
  text, \<open>i\<close> is the least offset where it matches; later patterns are not consulted. In
  particular, when the first pattern (\<open>This is a sample\<close>) matches nowhere and the second
  (\<open>USER GUIDE\<close>) has its first match at \<open>u\<close>, the clause is inserted at \<open>u\<close>, also when
  the fourth (\<open>WARRANTIES\<close>) matches.
\<close>

theorem anchor_strict_priority:
  "(find_insertion_index target_patterns text = Some i \<longleftrightarrow>
      (\<exists>k<length target_patterns.
          (\<forall>j<k. \<forall>ofs. \<not> matches_at (target_patterns ! j) text ofs)
          \<and> matches_at (target_patterns ! k) text i
          \<and> (\<forall>ofs<i. \<not> matches_at (target_patterns ! k) text ofs)))
   \<and> (re_search_multiline (target_patterns ! 0) text = None
       \<and> re_search_multiline (target_patterns ! 1) text = Some u
       \<and> re_search_multiline (target_patterns ! 3) text = Some w
      \<longrightarrow> inject_clause_smartly text clause
          = rstrip (take u text) @ [NL, NL] @ clause @ [NL, NL] @ drop u text)"
proof
  show "find_insertion_index target_patterns text = Some i \<longleftrightarrow>
      (\<exists>k<length target_patterns.
          (\<forall>j<k. \<forall>ofs. \<not> matches_at (target_patterns ! j) text ofs)
          \<and> matches_at (target_patterns ! k) text i
          \<and> (\<forall>ofs<i. \<not> matches_at (target_patterns ! k) text ofs))"
    by (simp only: find_insertion_index_some search_multiline_some search_multiline_none)
  show "re_search_multiline (target_patterns ! 0) text = None
       \<and> re_search_multiline (target_patterns ! 1) text = Some u
       \<and> re_search_multiline (target_patterns ! 3) text = Some w
      \<longrightarrow> inject_clause_smartly text clause
          = rstrip (take u text) @ [NL, NL] @ clause @ [NL, NL] @ drop u text"
  proof
    assume a: "re_search_multiline (target_patterns ! 0) text = None
       \<and> re_search_multiline (target_patterns ! 1) text = Some u
       \<and> re_search_multiline (target_patterns ! 3) text = Some w"
    then have "\<forall>j<1. re_search_multiline (target_patterns ! j) text = None" by simp
    with a have "\<exists>k<length target_patterns. (\<forall>j<k. re_search_multiline (target_patterns ! j) text = None)
        \<and> re_search_multiline (target_patterns ! k) text = Some u"
      by (intro exI [of _ 1]) (simp add: length_target_patterns)
    then have "find_insertion_index target_patterns text = Some u"
      by (simp only: find_insertion_index_some)
    then show "inject_clause_smartly text clause
          = rstrip (take u text) @ [NL, NL] @ clause @ [NL, NL] @ drop u text"
      by (rule inject_at)
  qed
qed

lemma sample_absent: "re_search_multiline (target_patterns ! 0) (''WARRANTIES'' @ [NL] @ ''USER GUIDE'') = None"
  by code_simp
lemma user_guide_at_11: "re_search_multiline (target_patterns ! 1) (''WARRANTIES'' @ [NL] @ ''USER GUIDE'') = Some 11"
  by code_simp
lemma warranties_at_0: "re_search_multiline (target_patterns ! 3) (''WARRANTIES'' @ [NL] @ ''USER GUIDE'') = Some 0"
  by code_simp
lemma split_at_11: "rstrip (take 11 (''WARRANTIES'' @ [NL] @ ''USER GUIDE'')) @ [NL, NL] @ ''C'' @ [NL, NL]
     @ drop 11 (''WARRANTIES'' @ [NL] @ ''USER GUIDE'')
   = ''WARRANTIES'' @ [NL, NL] @ ''C'' @ [NL, NL] @ ''USER GUIDE''"
  by code_simp

theorem anchor_strict_priority_witness:
  "re_search_multiline (target_patterns ! 0) (''WARRANTIES'' @ [NL] @ ''USER GUIDE'') = None
   \<and> re_search_multiline (target_patterns ! 1) (''WARRANTIES'' @ [NL] @ ''USER GUIDE'') = Some 11
   \<and> re_search_multiline (target_patterns ! 3) (''WARRANTIES'' @ [NL] @ ''USER GUIDE'') = Some 0
   \<and> inject_clause_smartly (''WARRANTIES'' @ [NL] @ ''USER GUIDE'') ''C''
     = ''WARRANTIES'' @ [NL, NL] @ ''C'' @ [NL, NL] @ ''USER GUIDE''"
proof -
  from anchor_strict_priority [of "''WARRANTIES'' @ [NL] @ ''USER GUIDE''" 11 11 0 "''C''"] sample_absent user_guide_at_11 warranties_at_0
  have "inject_clause_smartly (''WARRANTIES'' @ [NL] @ ''USER GUIDE'') ''C''
     = rstrip (take 11 (''WARRANTIES'' @ [NL] @ ''USER GUIDE'')) @ [NL, NL] @ ''C'' @ [NL, NL]
       @ drop 11 (''WARRANTIES'' @ [NL] @ ''USER GUIDE'')"
    by blast
  with sample_absent user_guide_at_11 warranties_at_0 split_at_11 show ?thesis by simp
qed

text \<open>
  C5 as stated fails: in a text with a \<open>USER GUIDE\<close> line, a \<open>WARRANTIES\<close> line and then
  \<open>This is a sample\<close>, both anchors match, and the clause is inserted before the sample
  line, after the \<open>USER GUIDE\<close> line.
\<close>

theorem anchor_priority_counterexample:
  "re_search_multiline (target_patterns ! 1)
      (''USER GUIDE'' @ [NL] @ ''WARRANTIES'' @ [NL] @ ''This is a sample'') = Some 0
   \<and> re_search_multiline (target_patterns ! 3)
      (''USER GUIDE'' @ [NL] @ ''WARRANTIES'' @ [NL] @ ''This is a sample'') = Some 11
   \<and> inject_clause_smartly (''USER GUIDE'' @ [NL] @ ''WARRANTIES'' @ [NL] @ ''This is a sample'') ''C''
     = ''USER GUIDE'' @ [NL] @ ''WARRANTIES'' @ [NL, NL] @ ''C'' @ [NL, NL] @ ''This is a sample''
   \<and> inject_clause_smartly (''USER GUIDE'' @ [NL] @ ''WARRANTIES'' @ [NL] @ ''This is a sample'') ''C''
     \<noteq> [NL, NL] @ ''C'' @ [NL, NL] @ ''USER GUIDE'' @ [NL] @ ''WARRANTIES'' @ [NL] @ ''This is a sample''"
  by code_simp

text \<open>
  C10. When the anchor search matches the text at offset \<open>i\<close> (the \<open>insertion_index\<close>),
  some anchor pattern matches there, and the output is the trimmed prefix, the separated
  clause, and then the suffix of the text from \<open>i\<close> on, unchanged: the output ends with
  that suffix and the clause stands strictly before it. The same holds for the suffix
  from every later offset.
\<close>

theorem inject_keeps_suffix:
  assumes "find_insertion_index target_patterns text = Some i"
  shows "i \<le> length text \<and> (\<exists>p\<in>set target_patterns. matches_at p text i)
     \<and> inject_clause_smartly text clause
       = (rstrip (take i text) @ [NL, NL] @ clause @ [NL, NL]) @ drop i text
     \<and> suffix (drop i text) (inject_clause_smartly text clause)
     \<and> (\<forall>j\<ge>i. \<exists>before between.
           inject_clause_smartly text clause = before @ clause @ between @ drop j text)"
proof -
  from assms obtain k where k: "k < length target_patterns"
    "re_search_multiline (target_patterns ! k) text = Some i"
    unfolding find_insertion_index_some by blast
  then have m: "matches_at (target_patterns ! k) text i" by (simp add: search_multiline_some)
  then have "i \<le> length text" by (rule matches_at_bound)
  moreover from k(1) m have "\<exists>p\<in>set target_patterns. matches_at p text i"
    using nth_mem by blast
  moreover have eq: "inject_clause_smartly text clause
       = (rstrip (take i text) @ [NL, NL] @ clause @ [NL, NL]) @ drop i text"
    using inject_at [OF assms] by simp
  moreover have "suffix (drop i text) (inject_clause_smartly text clause)"
    unfolding eq by (rule suffix_appendI) simp
  moreover have "\<forall>j\<ge>i. \<exists>before between.
      inject_clause_smartly text clause = before @ clause @ between @ drop j text"
  proof (intro allI impI)
    fix j
    assume "i \<le> j"
    then have "drop (j - i) (drop i text) = drop j text" by simp
    then have "drop i text = take (j - i) (drop i text) @ drop j text"
      using append_take_drop_id [of "j - i" "drop i text"] by simp
    then have "inject_clause_smartly text clause
        = (rstrip (take i text) @ [NL, NL]) @ clause @ ([NL, NL] @ take (j - i) (drop i text))
          @ drop j text"
      using eq by simp
    then show "\<exists>before between.
        inject_clause_smartly text clause = before @ clause @ between @ drop j text"
      by blast
  qed
  ultimately show ?thesis by blast
qed

lemma index_user_guide: "find_insertion_index target_patterns (''WARRANTIES'' @ [NL] @ ''USER GUIDE'') = Some 11"
  by code_simp

theorem inject_keeps_suffix_witness:
  "find_insertion_index target_patterns (''WARRANTIES'' @ [NL] @ ''USER GUIDE'') = Some 11
   \<and> suffix ''USER GUIDE'' (inject_clause_smartly (''WARRANTIES'' @ [NL] @ ''USER GUIDE'') ''C'')"
proof -
  have d: "drop 11 (''WARRANTIES'' @ [NL] @ ''USER GUIDE'') = ''USER GUIDE''" by simp
  from inject_keeps_suffix [OF index_user_guide, of "''C''"]
  have "suffix (drop 11 (''WARRANTIES'' @ [NL] @ ''USER GUIDE''))
     (inject_clause_smartly (''WARRANTIES'' @ [NL] @ ''USER GUIDE'') ''C'')" by blast
  with index_user_guide d show ?thesis by simp
qed

text \<open>
  C3 (as the code behaves). With an anchor at offset \<open>i\<close> the output keeps every original
  character except the whitespace trimmed from the end of the prefix: the original is
  the trimmed prefix, the trimmed whitespace and the suffix, the output is the trimmed
  prefix, the separated clause and the suffix, and its length is the input length plus the
  clause length plus 4 minus the number of trimmed characters. With no anchor the output is
  the original, two newlines and the clause, of length input plus clause plus 2.
\<close>

theorem inject_length:
  "(find_insertion_index target_patterns original = Some i \<longrightarrow>
      (\<exists>trimmed. list_all isspace trimmed
         \<and> original = rstrip (take i original) @ trimmed @ drop i original
         \<and> inject_clause_smartly original clause
           = rstrip (take i original) @ [NL, NL] @ clause @ [NL, NL] @ drop i original
         \<and> length (inject_clause_smartly original clause) + length trimmed
           = length original + length clause + 4))
   \<and> (find_insertion_index target_patterns original = None \<longrightarrow>
        inject_clause_smartly original clause = original @ [NL, NL] @ clause
        \<and> length (inject_clause_smartly original clause) = length original + length clause + 2)"
proof (intro conjI impI)
  assume f: "find_insertion_index target_patterns original = Some i"
  obtain trimmed where t: "list_all isspace trimmed" "take i original = rstrip (take i original) @ trimmed"
    using rstrip_split [of "take i original"] by blast
  have o: "original = rstrip (take i original) @ trimmed @ drop i original"
    using t(2) append_take_drop_id [of i original] by (metis append.assoc)
  have e: "inject_clause_smartly original clause
           = rstrip (take i original) @ [NL, NL] @ clause @ [NL, NL] @ drop i original"
    by (rule inject_at [OF f])
  have "length original = length (rstrip (take i original)) + length trimmed + length (drop i original)"
    using arg_cong [OF o, of length] by (simp only: length_append add.assoc)
  then have "length (inject_clause_smartly original clause) + length trimmed
           = length original + length clause + 4"
    unfolding e by simp
  with t(1) o e show "\<exists>trimmed. list_all isspace trimmed
         \<and> original = rstrip (take i original) @ trimmed @ drop i original
         \<and> inject_clause_smartly original clause
           = rstrip (take i original) @ [NL, NL] @ clause @ [NL, NL] @ drop i original
         \<and> length (inject_clause_smartly original clause) + length trimmed
           = length original + length clause + 4"
    by blast
next
  assume "find_insertion_index target_patterns original = None"
  then show "inject_clause_smartly original clause = original @ [NL, NL] @ clause"
    by (simp add: inject_clause_smartly_def)
  then show "length (inject_clause_smartly original clause) = length original + length clause + 2"
    by simp
qed

lemma index_after_spaces: "find_insertion_index target_patterns (''A  '' @ [NL] @ ''WARRANTIES'') = Some 4"
  by code_simp
lemma index_no_anchor: "find_insertion_index target_patterns ''No anchor here.'' = None"
  by code_simp

theorem inject_length_witness:
  "find_insertion_index target_patterns (''A  '' @ [NL] @ ''WARRANTIES'') = Some 4
   \<and> length (inject_clause_smartly (''A  '' @ [NL] @ ''WARRANTIES'') ''C'') \<le> 14 + 1 + 4
   \<and> find_insertion_index target_patterns ''No anchor here.'' = None
   \<and> inject_clause_smartly ''No anchor here.'' ''C'' = ''No anchor here.'' @ [NL, NL] @ ''C''"
proof -
  note a = inject_length [of "''A  '' @ [NL] @ ''WARRANTIES''" 4 "''C''", THEN conjunct1, THEN mp, OF index_after_spaces]
  note b = inject_length [of "''No anchor here.''" 0 "''C''", THEN conjunct2, THEN mp, OF index_no_anchor]
  from a have "\<exists>n. length (inject_clause_smartly (''A  '' @ [NL] @ ''WARRANTIES'') ''C'') + n
       = length (''A  '' @ [NL] @ ''WARRANTIES'') + length ''C'' + 4"
    by blast
  then have "length (inject_clause_smartly (''A  '' @ [NL] @ ''WARRANTIES'') ''C'') \<le> 14 + 1 + 4"
    by auto
  with index_after_spaces index_no_anchor b [THEN conjunct1] show ?thesis by (intro conjI)
qed

text \<open>
  C3 as stated fails: trailing whitespace before the anchor is dropped, and the output is
  shorter than input plus clause plus 4, also when no anchor is found.
\<close>

theorem inject_length_counterexample:
  "inject_clause_smartly (''A  '' @ [NL] @ ''WARRANTIES'') ''C''
     = ''A'' @ [NL, NL] @ ''C'' @ [NL, NL] @ ''WARRANTIES''
   \<and> length (inject_clause_smartly (''A  '' @ [NL] @ ''WARRANTIES'') ''C'')
     < length (''A  '' @ [NL] @ ''WARRANTIES'') + length ''C'' + 4
   \<and> length (inject_clause_smartly ''No anchor here.'' ''C'') < length ''No anchor here.'' + length ''C'' + 4"
  by code_simp

section \<open>Heading fidelity of segmentation and reassembly\<close>

lemma strip_trimmed_nonempty: "strip s \<noteq> [] \<Longrightarrow> trimmed_nonempty (strip s)"
  by (simp add: trimmed_nonempty_def hd_strip last_strip)

lemma strip_fixed: "trimmed_nonempty h \<Longrightarrow> strip h = h"
proof -
  assume t: "trimmed_nonempty h"
  then have "rev h \<noteq> []" "\<not> isspace (hd (rev h))"
    by (simp_all add: trimmed_nonempty_def hd_rev)
  then have "dropWhile isspace (rev h) = rev h" by (simp add: dropWhile_eq_self_iff)
  then have "rstrip h = h" by (simp add: rstrip_def)
  moreover from t have "dropWhile isspace h = h"
    by (simp add: dropWhile_eq_self_iff trimmed_nonempty_def)
  ultimately show ?thesis by (simp add: strip_def lstrip_def)
qed

lemma split_loop_headings:
  "\<forall>(h, c)\<in>set sections. trimmed_nonempty h \<Longrightarrow> strip current_heading \<noteq> [] \<Longrightarrow>
   \<forall>(h, c)\<in>set (split_loop sections current_heading current_lines lns). trimmed_nonempty h"
proof (induction lns arbitrary: sections current_heading current_lines)
  case Nil
  then show ?case by (simp add: strip_trimmed_nonempty)
next
  case (Cons ln lns)
  let ?closed = "sections @ [(strip current_heading, strip (join [NL] current_lines))]"
  have closed: "\<forall>(h, c)\<in>set ?closed. trimmed_nonempty h"
    using Cons.prems by (simp add: strip_trimmed_nonempty)
  have next_heading: "strip (strip ln) \<noteq> []" if "strip ln \<noteq> []"
    using that strip_fixed [OF strip_trimmed_nonempty [OF that]] by simp
  show ?case
  proof (cases "strip ln = []")
    case True
    then show ?thesis using Cons.IH [OF Cons.prems] by simp
  next
    case False
    show ?thesis
    proof (cases "HEADING_RE_match (strip ln)")
      case h: True
      show ?thesis
      proof (cases "current_lines \<noteq> [] \<or> sections \<noteq> []")
        case True
        with False h show ?thesis
          using Cons.IH [OF closed next_heading [OF False], of "[]"] by simp
      next
        case n: False
        with False h show ?thesis
          using Cons.IH [OF Cons.prems(1) next_heading [OF False], of "[]"] by simp
      qed
    next
      case False
      with \<open>strip ln \<noteq> []\<close> show ?thesis using Cons.IH [OF Cons.prems] by simp
    qed
  qed
qed

lemma strip_Preamble: "strip ''Preamble'' \<noteq> []"
  by code_simp

lemma split_headings_trimmed:
  "(h, c) \<in> set (split_into_sections text) \<Longrightarrow> trimmed_nonempty h"
  using split_loop_headings [of "[]" "''Preamble''" "[]" "map rstrip (splitlines text)"] strip_Preamble
  unfolding split_into_sections_def by auto

lemma sections_loop_keeps: "x \<in> set out \<Longrightarrow> x \<in> set (sections_loop out secs)"
  by (induction out secs rule: sections_loop.induct) simp_all

lemma sections_loop_emits:
  "(h, c) \<in> set secs \<Longrightarrow> h \<noteq> [] \<Longrightarrow> h \<noteq> ''Preamble'' \<Longrightarrow> h \<in> set (sections_loop out secs)"
proof (induction out secs rule: sections_loop.induct)
  case (1 out)
  then show ?case by simp
next
  case (2 out h' c' rest)
  show ?case
  proof (cases "(h, c) = (h', c')")
    case True
    with 2(3,4) show ?thesis by (simp add: sections_loop_keeps)
  next
    case False
    with "2.prems"(1) have "(h, c) \<in> set rest" by auto
    from "2.IH" [OF this "2.prems"(2,3)] show ?thesis by (simp only: sections_loop.simps)
  qed
qed

lemma join_contains: "x \<in> set xs \<Longrightarrow> sublist x (join sep xs)"
proof (induction sep xs rule: join.induct)
  case (1 sep)
  then show ?case by simp
next
  case (2 sep y)
  then show ?case by simp
next
  case (3 sep y z zs)
  show ?case
  proof (cases "x = y")
    case True
    then show ?thesis by simp
  next
    case False
    with 3 have "sublist x (join sep (z # zs))" by simp
    then have "sublist x ((y @ sep) @ join sep (z # zs))" by (simp add: sublist_append)
    then show ?thesis by simp
  qed
qed

lemma dropWhile_keeps:
  "h \<noteq> [] \<Longrightarrow> \<not> P (hd h) \<Longrightarrow> \<exists>u'. dropWhile P (u @ h @ v) = u' @ h @ v"
proof (induction u)
  case Nil
  then have "dropWhile P (h @ v) = h @ v" by (cases h) simp_all
  then show ?case by (intro exI [of _ "[]"]) simp
next
  case (Cons a u)
  show ?case
  proof (cases "P a")
    case True
    with Cons show ?thesis by simp
  next
    case False
    then show ?thesis by (intro exI [of _ "a # u"]) simp
  qed
qed

lemma dropWhile_sublist:
  assumes "h \<noteq> []" "\<not> P (hd h)" "sublist h s"
  shows "sublist h (dropWhile P s)"
proof -
  from assms(3) obtain u v where "s = u @ h @ v" by (auto simp: sublist_def)
  with dropWhile_keeps [of h P u v] assms(1,2) show ?thesis by (auto simp: sublist_def)
qed

lemma strip_sublist:
  assumes "trimmed_nonempty h" "sublist h s"
  shows "sublist h (strip s)"
proof -
  from assms(1) have r: "rev h \<noteq> []" "\<not> isspace (hd (rev h))"
    by (simp_all add: trimmed_nonempty_def hd_rev)
  from assms(2) have a: "sublist (rev h) (rev s)" by simp
  have "sublist (rev h) (dropWhile isspace (rev s))"
    by (rule dropWhile_sublist [of "rev h" isspace "rev s", OF r a])
  then have "sublist (rev (rev h)) (rev (dropWhile isspace (rev s)))"
    by (simp only: sublist_rev)
  then have "sublist h (rstrip s)" by (simp add: rstrip_def)
  with assms(1) dropWhile_sublist [of h isspace "rstrip s"] show ?thesis
    by (simp add: strip_def lstrip_def trimmed_nonempty_def)
qed

text \<open>
  C7 (as the code behaves). For every document, every heading in the output of
  \<open>split_into_sections\<close> other than \<open>Preamble\<close> occurs verbatim as a substring of the
  text that \<open>sections_to_text\<close> produces from that output.
\<close>

theorem heading_fidelity:
  assumes "(h, c) \<in> set (split_into_sections text)" and "h \<noteq> ''Preamble''"
  shows "sublist h (sections_to_text (split_into_sections text))"
proof -
  from assms(1) have t: "trimmed_nonempty h" by (rule split_headings_trimmed)
  then have "h \<noteq> []" by (simp add: trimmed_nonempty_def)
  with assms have "h \<in> set (sections_loop [] (split_into_sections text))"
    by (intro sections_loop_emits)
  then have "sublist h (join [NL] (sections_loop [] (split_into_sections text)))"
    by (rule join_contains)
  with t show ?thesis unfolding sections_to_text_def by (rule strip_sublist)
qed

lemma doc_sections:
  "split_into_sections (''Intro'' @ [NL] @ ''TERM AND TERMINATION'' @ [NL] @ ''Body.'')
   = [(''Preamble'', ''Intro''), (''TERM AND TERMINATION'', ''Body.'')]"
  by code_simp

theorem heading_fidelity_witness:
  "split_into_sections (''Intro'' @ [NL] @ ''TERM AND TERMINATION'' @ [NL] @ ''Body.'')
     = [(''Preamble'', ''Intro''), (''TERM AND TERMINATION'', ''Body.'')]
   \<and> ''TERM AND TERMINATION'' \<noteq> ''Preamble''
   \<and> sublist ''TERM AND TERMINATION''
       (sections_to_text (split_into_sections (''Intro'' @ [NL] @ ''TERM AND TERMINATION'' @ [NL] @ ''Body.'')))"
proof -
  have m: "(''TERM AND TERMINATION'', ''Body.'')
     \<in> set (split_into_sections (''Intro'' @ [NL] @ ''TERM AND TERMINATION'' @ [NL] @ ''Body.''))"
    by (simp only: doc_sections) simp
  have n: "''TERM AND TERMINATION'' \<noteq> ''Preamble''" by simp
  from heading_fidelity [OF m n] doc_sections n show ?thesis by (intro conjI)
qed

text \<open>
  C7 as stated fails for the \<open>Preamble\<close> heading, which the reassembly never emits: the
  document \<open>hello\<close> has the one section \<open>(Preamble, hello)\<close> and is reassembled to \<open>hello\<close>.
\<close>

theorem heading_fidelity_counterexample:
  "split_into_sections ''hello'' = [(''Preamble'', ''hello'')]
   \<and> sections_to_text (split_into_sections ''hello'') = ''hello''
   \<and> \<not> sublist ''Preamble'' (sections_to_text (split_into_sections ''hello''))"
  by code_simp

end
